theory Spec2Isabelle
  imports Main
begin

section \<open>The game engine of Catch-A-Frog (src/game\_logic.py)\<close>

subsection \<open>Data model\<close>

type_synonym Cell = "int \<times> int"

datatype status = in_progress | win | lose

datatype error = ValueError | KeyError

text \<open>The fields of class \<open>GameLogic\<close>. Python integers are unbounded, hence \<open>int\<close>.\<close>

record GameLogic =
  rows :: int
  cols :: int
  min_obstacles :: int
  max_obstacles :: int
  frog :: Cell
  obstacles :: "Cell set"
  status :: status

text \<open>The dict returned by \<open>step_after_click\<close>.\<close>

record step_result =
  added :: bool
  path :: "Cell list"
  moved_to :: Cell
  result_status :: status

subsection \<open>Geometry\<close>

definition in_bounds :: "GameLogic \<Rightarrow> Cell \<Rightarrow> bool" where
  "in_bounds g cell = (case cell of (r, c) \<Rightarrow> 0 \<le> r \<and> r < rows g \<and> 0 \<le> c \<and> c < cols g)"

definition offsets :: "int \<Rightarrow> (int \<times> int) list" where
  "offsets r =
     (if r mod 2 = 0 then [(-1, -1), (-1, 0), (0, -1), (0, 1), (1, -1), (1, 0)]
      else [(-1, 0), (-1, 1), (0, -1), (0, 1), (1, 0), (1, 1)])"

definition neighbors :: "GameLogic \<Rightarrow> Cell \<Rightarrow> Cell list" where
  "neighbors g cell =
     (case cell of (r, c) \<Rightarrow>
        filter (in_bounds g) (map (\<lambda>(dr, dc). (r + dr, c + dc)) (offsets r)))"

definition is_edge :: "GameLogic \<Rightarrow> Cell \<Rightarrow> bool" where
  "is_edge g cell = (case cell of (r, c) \<Rightarrow> r = 0 \<or> r = rows g - 1 \<or> c = 0 \<or> c = cols g - 1)"

subsection \<open>Placing an obstacle\<close>

definition add_obstacle :: "GameLogic \<Rightarrow> int \<Rightarrow> int \<Rightarrow> GameLogic \<times> bool" where
  "add_obstacle g r c =
     (let cell = (r, c) in
      if \<not> in_bounds g cell then (g, False)
      else if cell = frog g then (g, False)
      else if cell \<in> obstacles g then (g, False)
      else (g\<lparr>obstacles := insert cell (obstacles g)\<rparr>, True))"

subsection \<open>Breadth-first search\<close>

text \<open>
  The loop \<open>while path[-1] != start: path.append(parent[path[-1]])\<close>. A missing key
  raises \<open>KeyError\<close>; a cyclic \<open>parent\<close> would keep the loop running, which is the
  value \<open>None\<close> here.
\<close>

partial_function (option) reconstruct ::
  "(Cell \<rightharpoonup> Cell) \<Rightarrow> Cell \<Rightarrow> Cell list \<Rightarrow> (error + Cell list) option"
where
  "reconstruct parent start pth =
     (if last pth = start then Some (Inr pth)
      else (case parent (last pth) of
              None \<Rightarrow> Some (Inl KeyError)
            | Some p \<Rightarrow> reconstruct parent start (pth @ [p])))"

declare reconstruct.simps [code]

text \<open>One round of the loop over \<open>self.neighbors(cur)\<close>.\<close>

fun visit ::
  "GameLogic \<Rightarrow> Cell \<Rightarrow> Cell \<Rightarrow> Cell list \<times> Cell set \<times> (Cell \<rightharpoonup> Cell)
     \<Rightarrow> Cell list \<times> Cell set \<times> (Cell \<rightharpoonup> Cell)"
where
  "visit g cur nb (q, visited, parent) =
     (if nb \<in> visited then (q, visited, parent)
      else if nb \<in> obstacles g then (q, visited, parent)
      else (q @ [nb], insert nb visited, parent(nb \<mapsto> cur)))"

definition grid :: "GameLogic \<Rightarrow> Cell set" where
  "grid g = {cell. in_bounds g cell}"

lemma grid_eq: "grid g = {0..<rows g} \<times> {0..<cols g}"
  by (auto simp: grid_def in_bounds_def)

lemma finite_grid: "finite (grid g)"
  by (simp add: grid_eq)

lemma neighbors_in_grid: "set (neighbors g cell) \<subseteq> grid g"
  by (auto simp: neighbors_def grid_def split: prod.splits)

lemma fold_visit_progress:
  assumes "fold (visit g cur) nbs (q, visited, parent) = (q', visited', parent')"
    and "set nbs \<subseteq> grid g"
  shows "(q' = q \<and> visited' = visited)
       \<or> (visited \<subseteq> visited' \<and> grid g - visited' \<subset> grid g - visited)"
  using assms
proof (induction nbs arbitrary: q visited parent)
  case Nil
  then show ?case by simp
next
  case (Cons nb nbs)
  show ?case
  proof (cases "nb \<in> visited \<or> nb \<in> obstacles g")
    case True
    with Cons.prems have "fold (visit g cur) nbs (q, visited, parent) = (q', visited', parent')"
      by (auto split: if_splits)
    with Cons.IH Cons.prems(2) show ?thesis by simp
  next
    case False
    with Cons.prems have
      f: "fold (visit g cur) nbs (q @ [nb], insert nb visited, parent(nb \<mapsto> cur))
            = (q', visited', parent')"
      by auto
    from Cons.prems(2) have nbg: "nb \<in> grid g" and sub: "set nbs \<subseteq> grid g" by auto
    from Cons.IH [OF f sub] have "insert nb visited \<subseteq> visited'" by auto
    with False nbg show ?thesis by auto
  qed
qed

function bfs_loop ::
  "GameLogic \<Rightarrow> Cell \<Rightarrow> Cell list \<Rightarrow> Cell set \<Rightarrow> (Cell \<rightharpoonup> Cell) \<Rightarrow> (error + Cell list) option"
where
  "bfs_loop g start [] visited parent = Some (Inr [])"
| "bfs_loop g start (cur # q) visited parent =
     (if is_edge g cur then
        (case reconstruct parent start [cur] of
           None \<Rightarrow> None
         | Some (Inl e) \<Rightarrow> Some (Inl e)
         | Some (Inr pth) \<Rightarrow> Some (Inr (rev pth)))
      else
        (case fold (visit g cur) (neighbors g cur) (q, visited, parent) of
           (q', visited', parent') \<Rightarrow> bfs_loop g start q' visited' parent'))"
  by pat_completeness auto
termination
proof (relation "inv_image (less_than <*lex*> less_than)
         (\<lambda>(g, start, q, visited, parent). (card (grid g - visited), length q))", goal_cases)
  case 1
  show ?case by (intro wf_inv_image wf_lex_prod wf_less_than)
next
  case (2 g start cur q visited parent q' y visited' parent')
  then have f: "fold (visit g cur) (neighbors g cur) (q, visited, parent) = (q', visited', parent')"
    by simp
  from fold_visit_progress [OF f neighbors_in_grid]
  show ?case
  proof
    assume "q' = q \<and> visited' = visited"
    then show ?thesis by simp
  next
    assume "visited \<subseteq> visited' \<and> grid g - visited' \<subset> grid g - visited"
    then have "card (grid g - visited') < card (grid g - visited)"
      by (intro psubset_card_mono) (auto simp: finite_grid)
    then show ?thesis by simp
  qed
qed

definition shortest_path_to_edge :: "GameLogic \<Rightarrow> (error + Cell list) option" where
  "shortest_path_to_edge g =
     (let start = frog g in
      if is_edge g start then Some (Inr [start])
      else bfs_loop g start [start] {start} Map.empty)"

subsection \<open>One turn\<close>

text \<open>
  The choice of the cell to hop to, for a path of at least two cells: \<open>path[1]\<close> when
  it is a neighbour of the frog, else the first neighbour found in \<open>path[1:]\<close>.
\<close>

definition next_cell :: "GameLogic \<Rightarrow> Cell list \<Rightarrow> Cell option" where
  "next_cell g pth =
     (let start = frog g; nbs = set (neighbors g start) in
      if pth ! 1 \<in> nbs then Some (pth ! 1)
      else find (\<lambda>p. p \<in> nbs) (tl pth))"

definition step_after_click ::
  "GameLogic \<Rightarrow> int \<Rightarrow> int \<Rightarrow> (error + GameLogic \<times> step_result) option"
where
  "step_after_click g0 r c =
     (case add_obstacle g0 r c of (g, was_added) \<Rightarrow>
      if status g \<noteq> in_progress then
        Some (Inr (g, \<lparr>added = was_added, path = [], moved_to = frog g, result_status = status g\<rparr>))
      else
        (case shortest_path_to_edge g of
           None \<Rightarrow> None
         | Some (Inl e) \<Rightarrow> Some (Inl e)
         | Some (Inr pth) \<Rightarrow>
             if pth = [] then
               (let g1 = g\<lparr>status := win\<rparr> in
                Some (Inr (g1, \<lparr>added = was_added, path = [], moved_to = frog g1,
                                result_status = status g1\<rparr>)))
             else
               (let g1 = (if length pth \<ge> 2 then
                            (case next_cell g pth of
                               Some nc \<Rightarrow> g\<lparr>frog := nc\<rparr>
                             | None \<Rightarrow> g)
                          else g);
                    g2 = (if is_edge g1 (frog g1) then g1\<lparr>status := lose\<rparr> else g1)
                in Some (Inr (g2, \<lparr>added = was_added, path = pth, moved_to = frog g2,
                                   result_status = status g2\<rparr>)))))"

subsection \<open>Construction and reset\<close>

text \<open>
  The generator of Python's \<open>random\<close> module is a parameter: a sequence of natural
  numbers, the \<open>k\<close>-th of which decides the \<open>k\<close>-th draw. A draw is reduced into the
  range the library function promises, so every sequence is a possible run and every
  possible run is some sequence. Both functions raise \<open>ValueError\<close> on an empty range.
\<close>

definition randint :: "int \<Rightarrow> int \<Rightarrow> nat \<Rightarrow> error + int" where
  "randint a b k = (if b < a then Inl ValueError else Inr (a + int k mod (b - a + 1)))"

definition randrange :: "int \<Rightarrow> nat \<Rightarrow> error + int" where
  "randrange n k = (if n \<le> 0 then Inl ValueError else Inr (int k mod n))"

text \<open>
  The \<open>while\<close> loop of \<open>spawn_initial_obstacles\<close>; draw \<open>0\<close> is the one of
  \<open>randint\<close>, round \<open>attempts\<close> takes the draws \<open>2 * attempts + 1\<close> and
  \<open>2 * attempts + 2\<close>. The number of attempts made is returned with the state.
\<close>

function spawn_loop ::
  "GameLogic \<Rightarrow> int \<Rightarrow> nat \<Rightarrow> (nat \<Rightarrow> nat) \<Rightarrow> error + GameLogic \<times> nat"
where
  "spawn_loop g n attempts rng =
     (if int (card (obstacles g)) < n \<and> int attempts < n * 10 + 100 then
        (case randrange (rows g) (rng (2 * attempts + 1)) of
           Inl e \<Rightarrow> Inl e
         | Inr r \<Rightarrow>
             (case randrange (cols g) (rng (2 * attempts + 2)) of
                Inl e \<Rightarrow> Inl e
              | Inr c \<Rightarrow>
                  if (r, c) = frog g then spawn_loop g n (attempts + 1) rng
                  else spawn_loop (g\<lparr>obstacles := insert (r, c) (obstacles g)\<rparr>) n
                         (attempts + 1) rng))
      else Inr (g, attempts))"
  by pat_completeness auto
termination
  by (relation "measure (\<lambda>(g, n, attempts, rng). nat (n * 10 + 100) - attempts)") auto

definition spawn_initial_obstacles :: "GameLogic \<Rightarrow> (nat \<Rightarrow> nat) \<Rightarrow> error + GameLogic" where
  "spawn_initial_obstacles g rng =
     (case randint (min_obstacles g) (max_obstacles g) (rng 0) of
        Inl e \<Rightarrow> Inl e
      | Inr n \<Rightarrow> map_sum id fst (spawn_loop (g\<lparr>obstacles := {}\<rparr>) n 0 rng))"

definition GameLogic_init ::
  "int \<Rightarrow> int \<Rightarrow> int \<Rightarrow> int \<Rightarrow> (nat \<Rightarrow> nat) \<Rightarrow> error + GameLogic"
where
  "GameLogic_init rs cs mn mx rng =
     spawn_initial_obstacles
       \<lparr>rows = rs, cols = cs, min_obstacles = mn, max_obstacles = mx,
        frog = (rs div 2, cs div 2), obstacles = {}, status = in_progress\<rparr> rng"

definition reset :: "GameLogic \<Rightarrow> (nat \<Rightarrow> nat) \<Rightarrow> error + GameLogic" where
  "reset g rng =
     spawn_initial_obstacles
       (g\<lparr>frog := (rows g div 2, cols g div 2), obstacles := {}, status := in_progress\<rparr>) rng"

subsection \<open>Runs of the engine\<close>

text \<open>The states that construction, \<open>reset\<close> and \<open>step_after_click\<close> can produce.\<close>

inductive reachable :: "GameLogic \<Rightarrow> bool" where
  r_init: "GameLogic_init rs cs mn mx rng = Inr g \<Longrightarrow> reachable g"
| r_reset: "reachable g \<Longrightarrow> reset g rng = Inr g' \<Longrightarrow> reachable g'"
| r_step: "reachable g \<Longrightarrow> step_after_click g r c = Some (Inr (g', res)) \<Longrightarrow> reachable g'"

text \<open>\<open>n\<close> calls of \<open>step_after_click(r, c)\<close> in a row, with the result of each call.\<close>

fun steps ::
  "nat \<Rightarrow> GameLogic \<Rightarrow> int \<Rightarrow> int \<Rightarrow> (error + GameLogic \<times> step_result list) option"
where
  "steps 0 g r c = Some (Inr (g, []))"
| "steps (Suc n) g r c =
     (case step_after_click g r c of
        None \<Rightarrow> None
      | Some (Inl e) \<Rightarrow> Some (Inl e)
      | Some (Inr (g', res)) \<Rightarrow>
          (case steps n g' r c of
             None \<Rightarrow> None
           | Some (Inl e) \<Rightarrow> Some (Inl e)
           | Some (Inr (g'', ress)) \<Rightarrow> Some (Inr (g'', res # ress))))"


subsection \<open>Paths and the invariant of the search\<close>

text \<open>Cells in a row, each one a neighbour of the one before it.\<close>

fun adjacent_path :: "GameLogic \<Rightarrow> Cell list \<Rightarrow> bool" where
  "adjacent_path g [] = True"
| "adjacent_path g [x] = True"
| "adjacent_path g (x # y # xs) = (y \<in> set (neighbors g x) \<and> adjacent_path g (y # xs))"

text \<open>A walk of the frog from \<open>start\<close>: adjacent cells, none of them an obstacle.\<close>

definition walk :: "GameLogic \<Rightarrow> Cell \<Rightarrow> Cell list \<Rightarrow> bool" where
  "walk g start xs \<longleftrightarrow>
     xs \<noteq> [] \<and> hd xs = start \<and> adjacent_path g xs \<and> set xs \<inter> obstacles g = {}"

text \<open>
  The loop invariant of the search, at the head of the \<open>while\<close> loop. The function
  \<open>d\<close> is the depth of a visited cell in the tree that \<open>parent\<close> spans; the
  program does not store it.
\<close>

definition bfs_inv ::
  "GameLogic \<Rightarrow> Cell \<Rightarrow> (Cell \<Rightarrow> nat) \<Rightarrow> Cell list \<Rightarrow> Cell set \<Rightarrow> (Cell \<rightharpoonup> Cell) \<Rightarrow> bool"
where
  "bfs_inv g start d q visited parent \<longleftrightarrow>
     start \<in> visited \<and> d start = 0 \<and> set q \<subseteq> visited
     \<and> (\<forall>v\<in>visited. v \<noteq> start \<longrightarrow>
           v \<notin> obstacles g
           \<and> (\<exists>u. parent v = Some u \<and> u \<in> visited \<and> v \<in> set (neighbors g u) \<and> d v = Suc (d u)))
     \<and> (\<forall>u\<in>visited - set q. \<not> is_edge g u
           \<and> (\<forall>v\<in>set (neighbors g u). v \<notin> obstacles g \<longrightarrow> v \<in> visited \<and> d v \<le> Suc (d u)))
     \<and> sorted (map d q)
     \<and> (\<forall>v\<in>visited. \<forall>x\<in>set q. d v \<le> Suc (d x))"


subsection \<open>The invariant of the game state, and the boards of the examples\<close>

definition game_inv :: "GameLogic \<Rightarrow> bool" where
  "game_inv g \<longleftrightarrow>
     in_bounds g (frog g) \<and> frog g \<notin> obstacles g \<and> (\<forall>cell\<in>obstacles g. in_bounds g cell)"

definition empty_board :: GameLogic where
  "empty_board = \<lparr>rows = 11, cols = 11, min_obstacles = 10, max_obstacles = 15,
                   frog = (5, 5), obstacles = {}, status = in_progress\<rparr>"

definition ring_board :: GameLogic where
  "ring_board = \<lparr>rows = 5, cols = 5, min_obstacles = 0, max_obstacles = 0,
                  frog = (2, 2), obstacles = {(1, 1), (1, 2), (2, 1), (2, 3), (3, 1)},
                  status = in_progress\<rparr>"

definition lost_board :: GameLogic where
  "lost_board = \<lparr>rows = 11, cols = 11, min_obstacles = 10, max_obstacles = 15,
                  frog = (0, 3), obstacles = {}, status = lose\<rparr>"

definition edge_board :: GameLogic where
  "edge_board = \<lparr>rows = 11, cols = 11, min_obstacles = 10, max_obstacles = 15,
                  frog = (0, 3), obstacles = {}, status = in_progress\<rparr>"

text \<open>Two generators for the examples: one counts, one always draws 5.\<close>

definition counting_rng :: "nat \<Rightarrow> nat" where
  "counting_rng k = k"

definition stuck_rng :: "nat \<Rightarrow> nat" where
  "stuck_rng k = 5"

definition small_board :: GameLogic where
  "small_board = \<lparr>rows = 2, cols = 5, min_obstacles = 1, max_obstacles = 1,
                   frog = (1, 2), obstacles = {(1, 4)}, status = in_progress\<rparr>"

section \<open>Correctness of the search\<close>

lemma adjacent_path_snoc:
  "adjacent_path g (xs @ [y]) \<longleftrightarrow> adjacent_path g xs \<and> (xs \<noteq> [] \<longrightarrow> y \<in> set (neighbors g (last xs)))"
  by (induction g xs rule: adjacent_path.induct) auto

lemma bfs_invI:
  assumes "start \<in> visited" "d start = 0" "set q \<subseteq> visited"
    and "\<And>v. v \<in> visited \<Longrightarrow> v \<noteq> start \<Longrightarrow>
           v \<notin> obstacles g
           \<and> (\<exists>u. parent v = Some u \<and> u \<in> visited \<and> v \<in> set (neighbors g u) \<and> d v = Suc (d u))"
    and "\<And>u. u \<in> visited \<Longrightarrow> u \<notin> set q \<Longrightarrow> \<not> is_edge g u"
    and "\<And>u v. u \<in> visited \<Longrightarrow> u \<notin> set q \<Longrightarrow> v \<in> set (neighbors g u) \<Longrightarrow> v \<notin> obstacles g
           \<Longrightarrow> v \<in> visited \<and> d v \<le> Suc (d u)"
    and "sorted (map d q)"
    and "\<And>v x. v \<in> visited \<Longrightarrow> x \<in> set q \<Longrightarrow> d v \<le> Suc (d x)"
  shows "bfs_inv g start d q visited parent"
  unfolding bfs_inv_def using assms by blast

lemma bfs_invD:
  assumes "bfs_inv g start d q visited parent"
  shows "start \<in> visited" and "d start = 0" and "set q \<subseteq> visited"
    and "\<And>v. v \<in> visited \<Longrightarrow> v \<noteq> start \<Longrightarrow> v \<notin> obstacles g"
    and "\<And>v. v \<in> visited \<Longrightarrow> v \<noteq> start \<Longrightarrow>
           \<exists>u. parent v = Some u \<and> u \<in> visited \<and> v \<in> set (neighbors g u) \<and> d v = Suc (d u)"
    and "\<And>u. u \<in> visited \<Longrightarrow> u \<notin> set q \<Longrightarrow> \<not> is_edge g u"
    and "\<And>u v. u \<in> visited \<Longrightarrow> u \<notin> set q \<Longrightarrow> v \<in> set (neighbors g u) \<Longrightarrow> v \<notin> obstacles g
           \<Longrightarrow> v \<in> visited \<and> d v \<le> Suc (d u)"
    and "sorted (map d q)"
    and "\<And>v x. v \<in> visited \<Longrightarrow> x \<in> set q \<Longrightarrow> d v \<le> Suc (d x)"
  using assms unfolding bfs_inv_def by blast+

lemma bfs_inv_init: "bfs_inv g start (\<lambda>_. 0) [start] {start} Map.empty"
  by (rule bfs_invI) simp_all

lemma bfs_inv_visit_new:
  assumes inv: "bfs_inv g start d (cur # q) visited parent"
    and nb: "nb \<in> set (neighbors g cur)" "nb \<notin> visited" "nb \<notin> obstacles g"
  shows "bfs_inv g start (d(nb := Suc (d cur))) (cur # q @ [nb]) (insert nb visited)
           (parent(nb \<mapsto> cur))"
proof (rule bfs_invI)
  let ?d = "d(nb := Suc (d cur))"
  note D = bfs_invD [OF inv]
  have old: "?d v = d v" if "v \<in> visited" for v
    using that nb(2) by auto
  have curv: "cur \<in> visited" using D(3) by simp
  have hd_le: "d cur \<le> d x" if "x \<in> set (cur # q)" for x
    using D(8) that by auto
  show "start \<in> insert nb visited" using D(1) by simp
  show "?d start = 0" using D(1,2) old by simp
  show "set (cur # q @ [nb]) \<subseteq> insert nb visited" using D(3) by auto
  show "v \<notin> obstacles g
           \<and> (\<exists>u. (parent(nb \<mapsto> cur)) v = Some u \<and> u \<in> insert nb visited
                  \<and> v \<in> set (neighbors g u) \<and> ?d v = Suc (?d u))"
    if v: "v \<in> insert nb visited" "v \<noteq> start" for v
  proof (cases "v = nb")
    case True
    then show ?thesis using nb curv old [OF curv] by simp
  next
    case False
    with v have vv: "v \<in> visited" by simp
    from D(5) [OF vv v(2)] obtain u where u: "parent v = Some u" "u \<in> visited"
      "v \<in> set (neighbors g u)" "d v = Suc (d u)" by blast
    from D(4) [OF vv v(2)] u False old [OF vv] old [OF u(2)] show ?thesis by simp
  qed
  show "\<not> is_edge g u" if "u \<in> insert nb visited" "u \<notin> set (cur # q @ [nb])" for u
    using that D(6) [of u] by simp
  show "v \<in> insert nb visited \<and> ?d v \<le> Suc (?d u)"
    if u: "u \<in> insert nb visited" "u \<notin> set (cur # q @ [nb])"
      and v: "v \<in> set (neighbors g u)" "v \<notin> obstacles g" for u v
  proof -
    from u have uv: "u \<in> visited" "u \<notin> set (cur # q)" by auto
    from D(7) [OF uv v] have "v \<in> visited" "d v \<le> Suc (d u)" by simp_all
    then show ?thesis using old uv(1) by simp
  qed
  have mapd: "map ?d (cur # q) = map d (cur # q)"
    by (rule map_cong [OF refl]) (use D(3) old in blast)
  have le: "d x \<le> Suc (d cur)" if "x \<in> set (cur # q)" for x
    using D(9) [of x cur] D(3) that by auto
  have "sorted (map ?d (cur # q) @ [?d nb])"
    unfolding mapd using D(8) le by (simp add: sorted_append)
  then show "sorted (map ?d (cur # q @ [nb]))" by simp
  show "?d v \<le> Suc (?d x)" if v: "v \<in> insert nb visited" and x: "x \<in> set (cur # q @ [nb])" for v x
  proof (cases "x = nb")
    case xt: True
    show ?thesis
    proof (cases "v = nb")
      case True
      with xt show ?thesis by simp
    next
      case False
      with v have vv: "v \<in> visited" by simp
      from D(9) [OF vv, of cur] have "d v \<le> Suc (d cur)" by simp
      then show ?thesis using xt False by simp
    qed
  next
    case xf: False
    with x have xq: "x \<in> set (cur # q)" by auto
    then have xv: "x \<in> visited" using D(3) by auto
    show ?thesis
    proof (cases "v = nb")
      case True
      then show ?thesis using hd_le [OF xq] xf by simp
    next
      case False
      with v have "v \<in> visited" by simp
      from D(9) [OF this xq] show ?thesis using False xf by simp
    qed
  qed
qed


lemma bfs_inv_pop:
  assumes inv: "bfs_inv g start d (cur # q) visited parent"
    and ne: "\<not> is_edge g cur"
    and nbs: "\<And>v. v \<in> set (neighbors g cur) \<Longrightarrow> v \<notin> obstacles g
                \<Longrightarrow> v \<in> visited \<and> d v \<le> Suc (d cur)"
  shows "bfs_inv g start d q visited parent"
proof (rule bfs_invI)
  note D = bfs_invD [OF inv]
  show "start \<in> visited" "d start = 0" by (rule D)+
  show "set q \<subseteq> visited" using D(3) by simp
  show "v \<notin> obstacles g
         \<and> (\<exists>u. parent v = Some u \<and> u \<in> visited \<and> v \<in> set (neighbors g u) \<and> d v = Suc (d u))"
    if "v \<in> visited" "v \<noteq> start" for v
    using D(4) [OF that] D(5) [OF that] by simp
  show "\<not> is_edge g u" if "u \<in> visited" "u \<notin> set q" for u
    using that D(6) [of u] ne by (cases "u = cur") simp_all
  show "v \<in> visited \<and> d v \<le> Suc (d u)"
    if "u \<in> visited" "u \<notin> set q" "v \<in> set (neighbors g u)" "v \<notin> obstacles g" for u v
    using that D(7) [of u v] nbs [of v] by (cases "u = cur") simp_all
  show "sorted (map d q)" using D(8) by simp
  show "d v \<le> Suc (d x)" if "v \<in> visited" "x \<in> set q" for v x
    using D(9) [of v x] that by simp
qed

lemma fold_visit_inv:
  assumes "bfs_inv g start d (cur # q) visited parent"
    and "set nbs \<subseteq> set (neighbors g cur)"
    and "fold (visit g cur) nbs (q, visited, parent) = (q', visited', parent')"
  shows "\<exists>d'. bfs_inv g start d' (cur # q') visited' parent'
            \<and> (\<forall>v\<in>visited. d' v = d v) \<and> visited \<subseteq> visited'
            \<and> (\<forall>v\<in>set nbs. v \<notin> obstacles g \<longrightarrow> v \<in> visited' \<and> d' v \<le> Suc (d' cur))"
  using assms
proof (induction nbs arbitrary: d q visited parent)
  case Nil
  then show ?case by auto
next
  case (Cons nb nbs)
  note D = bfs_invD [OF Cons.prems(1)]
  have curv: "cur \<in> visited" using D(3) by simp
  from Cons.prems(2) have nbn: "nb \<in> set (neighbors g cur)"
    and sub: "set nbs \<subseteq> set (neighbors g cur)" by simp_all
  show ?case
  proof (cases "nb \<in> visited")
    case True
    with Cons.prems(3) have f: "fold (visit g cur) nbs (q, visited, parent) = (q', visited', parent')"
      by simp
    from Cons.IH [OF Cons.prems(1) sub f] obtain d' where d':
      "bfs_inv g start d' (cur # q') visited' parent'"
      "\<forall>v\<in>visited. d' v = d v" "visited \<subseteq> visited'"
      "\<forall>v\<in>set nbs. v \<notin> obstacles g \<longrightarrow> v \<in> visited' \<and> d' v \<le> Suc (d' cur)"
      by blast
    from D(9) [OF True, of cur] have "d nb \<le> Suc (d cur)" by simp
    moreover from d'(2) True curv have "d' nb = d nb" "d' cur = d cur" by blast+
    ultimately have "d' nb \<le> Suc (d' cur)" by simp
    with d' True show ?thesis by (intro exI [of _ d']) auto
  next
    case nv: False
    show ?thesis
    proof (cases "nb \<in> obstacles g")
      case True
      with nv Cons.prems(3) have f: "fold (visit g cur) nbs (q, visited, parent) = (q', visited', parent')"
        by simp
      from Cons.IH [OF Cons.prems(1) sub f] obtain d' where d':
        "bfs_inv g start d' (cur # q') visited' parent'"
        "\<forall>v\<in>visited. d' v = d v" "visited \<subseteq> visited'"
        "\<forall>v\<in>set nbs. v \<notin> obstacles g \<longrightarrow> v \<in> visited' \<and> d' v \<le> Suc (d' cur)"
        by blast
      with True show ?thesis by (intro exI [of _ d']) auto
    next
      case False
      let ?d = "d(nb := Suc (d cur))"
      from nv False Cons.prems(3) have f:
        "fold (visit g cur) nbs (q @ [nb], insert nb visited, parent(nb \<mapsto> cur))
           = (q', visited', parent')"
        by simp
      have inv': "bfs_inv g start ?d (cur # q @ [nb]) (insert nb visited) (parent(nb \<mapsto> cur))"
        by (rule bfs_inv_visit_new [OF Cons.prems(1) nbn nv False])
      from Cons.IH [OF inv' sub f] obtain d' where d':
        "bfs_inv g start d' (cur # q') visited' parent'"
        "\<forall>v\<in>insert nb visited. d' v = ?d v" "insert nb visited \<subseteq> visited'"
        "\<forall>v\<in>set nbs. v \<notin> obstacles g \<longrightarrow> v \<in> visited' \<and> d' v \<le> Suc (d' cur)"
        by blast
      have a: "\<forall>v\<in>visited. d' v = d v"
      proof
        fix v assume v: "v \<in> visited"
        with d'(2) have "d' v = ?d v" by blast
        with v nv show "d' v = d v" by auto
      qed
      have "d' nb = ?d nb" using d'(2) by blast
      then have "d' nb = Suc (d cur)" by simp
      moreover have "d' cur = d cur" using a curv by blast
      ultimately have b: "d' nb \<le> Suc (d' cur)" by simp
      have c: "nb \<in> visited'" using d'(3) by simp
      from d'(1) a d'(3) d'(4) b c show ?thesis by (intro exI [of _ d']) auto
    qed
  qed
qed


lemma reconstruct_chain:
  assumes inv: "bfs_inv g start d q visited parent"
  shows "v \<in> visited \<Longrightarrow> d v = n \<Longrightarrow> pth \<noteq> [] \<Longrightarrow> last pth = v \<Longrightarrow>
     \<exists>ws. reconstruct parent start pth = Some (Inr (pth @ ws)) \<and> length ws = n
          \<and> last (pth @ ws) = start \<and> adjacent_path g (rev (v # ws)) \<and> set ws \<subseteq> visited"
proof (induction n arbitrary: v pth)
  case 0
  note D = bfs_invD [OF inv]
  have "v = start"
  proof (rule ccontr)
    assume "v \<noteq> start"
    from D(5) [OF "0.prems"(1) this] "0.prems"(2) show False by auto
  qed
  with "0.prems" have "reconstruct parent start pth = Some (Inr pth)"
    by (subst reconstruct.simps) simp
  with "0.prems" \<open>v = start\<close> show ?case by simp
next
  case (Suc n)
  note D = bfs_invD [OF inv]
  from Suc.prems(2) D(2) have vs: "v \<noteq> start" by auto
  from D(5) [OF Suc.prems(1) vs] obtain u where u: "parent v = Some u" "u \<in> visited"
    "v \<in> set (neighbors g u)" "d v = Suc (d u)" by blast
  from u(4) Suc.prems(2) have du: "d u = n" by simp
  have step: "reconstruct parent start pth = reconstruct parent start (pth @ [u])"
    using vs Suc.prems(4) u(1) by (subst reconstruct.simps) simp
  from Suc.IH [OF u(2) du, of "pth @ [u]"] obtain ws where ws:
    "reconstruct parent start ((pth @ [u]) @ ws) = reconstruct parent start ((pth @ [u]) @ ws)"
    "reconstruct parent start (pth @ [u]) = Some (Inr ((pth @ [u]) @ ws))" "length ws = n"
    "last ((pth @ [u]) @ ws) = start" "adjacent_path g (rev (u # ws))" "set ws \<subseteq> visited"
    by auto
  have "adjacent_path g (rev (u # ws) @ [v])"
    using ws(5) u(3) by (simp only: adjacent_path_snoc) (simp add: last_rev)
  then have adj: "adjacent_path g (rev (v # u # ws))" by simp
  show ?case
    by (rule exI [of _ "u # ws"]) (use step ws u(2) adj in simp)
qed

lemma walk_snoc:
  "xs \<noteq> [] \<Longrightarrow> walk g start (xs @ [y]) \<longleftrightarrow>
     walk g start xs \<and> y \<in> set (neighbors g (last xs)) \<and> y \<notin> obstacles g"
  by (auto simp: walk_def adjacent_path_snoc)

lemma walk_frontier:
  assumes inv: "bfs_inv g start d q visited parent" and w: "walk g start xs"
  shows "(last xs \<in> visited \<and> last xs \<notin> set q \<and> d (last xs) < length xs)
       \<or> (\<exists>y\<in>set q. d y < length xs)"
  using w
proof (induction xs rule: rev_induct)
  case Nil
  then show ?case by (simp add: walk_def)
next
  case (snoc y xs)
  note D = bfs_invD [OF inv]
  show ?case
  proof (cases "xs = []")
    case True
    with snoc.prems have "y = start" by (simp add: walk_def)
    show ?thesis
    proof (cases "start \<in> set q")
      case True
      with D(2) have "\<exists>z\<in>set q. d z < length (xs @ [y])" by (intro bexI [of _ start]) simp_all
      then show ?thesis by blast
    next
      case False
      with D(1,2) \<open>y = start\<close> show ?thesis by simp
    qed
  next
    case False
    with snoc.prems have w': "walk g start xs" and yn: "y \<in> set (neighbors g (last xs))"
      and yo: "y \<notin> obstacles g" by (simp_all add: walk_snoc)
    from snoc.IH [OF w'] show ?thesis
    proof
      assume a: "last xs \<in> visited \<and> last xs \<notin> set q \<and> d (last xs) < length xs"
      with D(7) [OF _ _ yn yo] have "y \<in> visited" "d y \<le> Suc (d (last xs))" by simp_all
      with a have yv: "y \<in> visited" and dy: "d y < length (xs @ [y])" by simp_all
      show ?thesis
      proof (cases "y \<in> set q")
        case True
        with dy have "\<exists>z\<in>set q. d z < length (xs @ [y])" by blast
        then show ?thesis by blast
      next
        case False
        with yv dy show ?thesis by simp
      qed
    next
      assume "\<exists>z\<in>set q. d z < length xs"
      then obtain z where "z \<in> set q" "d z < length xs" by blast
      then have "\<exists>z\<in>set q. d z < length (xs @ [y])" by (intro bexI [of _ z]) simp_all
      then show ?thesis by blast
    qed
  qed
qed

lemma bfs_loop_correct:
  assumes "bfs_inv g start d q visited parent" and "start \<notin> obstacles g"
  shows "\<exists>pth. bfs_loop g start q visited parent = Some (Inr pth)
           \<and> (pth \<noteq> [] \<longrightarrow> hd pth = start \<and> is_edge g (last pth) \<and> adjacent_path g pth
                 \<and> set pth \<inter> obstacles g = {})
           \<and> (\<forall>xs. walk g start xs \<and> is_edge g (last xs) \<longrightarrow> pth \<noteq> [] \<and> length pth \<le> length xs)"
  using assms
proof (induction g start q visited parent arbitrary: d rule: bfs_loop.induct)
  case (1 g start visited parent)
  note D = bfs_invD [OF "1.prems"(1)]
  have "\<not> (walk g start xs \<and> is_edge g (last xs))" for xs
  proof
    assume a: "walk g start xs \<and> is_edge g (last xs)"
    with walk_frontier [OF "1.prems"(1), of xs] have "last xs \<in> visited" by simp
    from D(6) [OF this] a show False by simp
  qed
  then show ?case by simp
next
  case (2 g start cur q visited parent)
  note D = bfs_invD [OF "2.prems"(1)]
  have curv: "cur \<in> visited" using D(3) by simp
  show ?case
  proof (cases "is_edge g cur")
    case True
    from reconstruct_chain [OF "2.prems"(1) curv refl, of "[cur]"] obtain ws where ws:
      "reconstruct parent start [cur] = Some (Inr ([cur] @ ws))" "length ws = d cur"
      "last ([cur] @ ws) = start" "adjacent_path g (rev (cur # ws))" "set ws \<subseteq> visited"
      by auto
    let ?p = "rev (cur # ws)"
    have res: "bfs_loop g start (cur # q) visited parent = Some (Inr ?p)"
      using True ws(1) by simp
    have "hd ?p = last ([cur] @ ws)" by (simp only: hd_rev append.simps)
    with ws(3) have hd: "hd ?p = start" by simp
    have lst: "last ?p = cur" by simp
    have "set (cur # ws) \<subseteq> visited" using curv ws(5) by simp
    then have free: "set ?p \<inter> obstacles g = {}"
      using D(4) "2.prems"(2) by (simp only: set_rev) blast
    have minimal: "length ?p \<le> length xs" if w: "walk g start xs" and e: "is_edge g (last xs)" for xs
    proof -
      from walk_frontier [OF "2.prems"(1) w] show ?thesis
      proof
        assume "last xs \<in> visited \<and> last xs \<notin> set (cur # q) \<and> d (last xs) < length xs"
        with D(6) [of "last xs"] e show ?thesis by simp
      next
        assume "\<exists>y\<in>set (cur # q). d y < length xs"
        then obtain y where y: "y \<in> set (cur # q)" "d y < length xs" by blast
        from D(8) y(1) have "d cur \<le> d y" by auto
        with y(2) ws(2) show ?thesis by simp
      qed
    qed
    show ?thesis
      by (rule exI [of _ ?p]) (use res hd lst True ws(4) free minimal in simp)
  next
    case False
    obtain q' visited' parent' where
      f: "fold (visit g cur) (neighbors g cur) (q, visited, parent) = (q', visited', parent')"
      by (cases "fold (visit g cur) (neighbors g cur) (q, visited, parent)") auto
    from fold_visit_inv [OF "2.prems"(1) subset_refl f] obtain d' where d':
      "bfs_inv g start d' (cur # q') visited' parent'"
      "\<forall>v\<in>set (neighbors g cur). v \<notin> obstacles g \<longrightarrow> v \<in> visited' \<and> d' v \<le> Suc (d' cur)"
      by blast
    have inv': "bfs_inv g start d' q' visited' parent'"
      by (rule bfs_inv_pop [OF d'(1) False]) (use d'(2) in blast)
    have eq: "bfs_loop g start (cur # q) visited parent = bfs_loop g start q' visited' parent'"
      using False f by simp
    from "2.IH" [OF False f [symmetric] refl inv' "2.prems"(2)] show ?thesis
      unfolding eq .
  qed
qed


section \<open>Facts about one turn and about spawning\<close>

lemma shortest_path_to_edge_correct:
  assumes "frog g \<notin> obstacles g"
  shows "\<exists>pth. shortest_path_to_edge g = Some (Inr pth)
           \<and> (pth \<noteq> [] \<longrightarrow> hd pth = frog g \<and> is_edge g (last pth) \<and> adjacent_path g pth
                 \<and> set pth \<inter> obstacles g = {})
           \<and> (\<forall>xs. walk g (frog g) xs \<and> is_edge g (last xs) \<longrightarrow>
                  pth \<noteq> [] \<and> length pth \<le> length xs)"
proof (cases "is_edge g (frog g)")
  case True
  have "1 \<le> length xs" if "walk g (frog g) xs" for xs
    using that by (cases xs) (simp_all add: walk_def)
  with True assms show ?thesis
    by (intro exI [of _ "[frog g]"]) (simp add: shortest_path_to_edge_def)
next
  case False
  then have "shortest_path_to_edge g = bfs_loop g (frog g) [frog g] {frog g} Map.empty"
    by (simp add: shortest_path_to_edge_def Let_def del: bfs_loop.simps)
  with bfs_loop_correct [OF bfs_inv_init assms] show ?thesis
    by (simp del: bfs_loop.simps)
qed

lemma add_obstacle_fields:
  "rows (fst (add_obstacle g r c)) = rows g"
  "cols (fst (add_obstacle g r c)) = cols g"
  "frog (fst (add_obstacle g r c)) = frog g"
  "status (fst (add_obstacle g r c)) = status g"
  "min_obstacles (fst (add_obstacle g r c)) = min_obstacles g"
  "max_obstacles (fst (add_obstacle g r c)) = max_obstacles g"
  by (simp_all add: add_obstacle_def Let_def)

lemma in_bounds_cong: "rows g' = rows g \<Longrightarrow> cols g' = cols g \<Longrightarrow> in_bounds g' = in_bounds g"
  by (rule ext) (simp add: in_bounds_def split: prod.splits)

lemma neighbors_cong: "rows g' = rows g \<Longrightarrow> cols g' = cols g \<Longrightarrow> neighbors g' = neighbors g"
  by (rule ext) (simp add: neighbors_def in_bounds_cong [of g' g])

lemma is_edge_cong: "rows g' = rows g \<Longrightarrow> cols g' = cols g \<Longrightarrow> is_edge g' = is_edge g"
  by (rule ext) (simp add: is_edge_def split: prod.splits)

lemma is_edge_update [simp]:
  "is_edge (g\<lparr>frog := x\<rparr>) = is_edge g"
  "is_edge (g\<lparr>status := s\<rparr>) = is_edge g"
  "is_edge (g\<lparr>obstacles := ob\<rparr>) = is_edge g"
  by (rule is_edge_cong; simp)+

lemma in_bounds_update [simp]:
  "in_bounds (g\<lparr>frog := x\<rparr>) = in_bounds g"
  "in_bounds (g\<lparr>status := s\<rparr>) = in_bounds g"
  "in_bounds (g\<lparr>obstacles := ob\<rparr>) = in_bounds g"
  by (rule in_bounds_cong; simp)+

lemma neighbors_update [simp]:
  "neighbors (g\<lparr>frog := x\<rparr>) = neighbors g"
  "neighbors (g\<lparr>status := s\<rparr>) = neighbors g"
  "neighbors (g\<lparr>obstacles := ob\<rparr>) = neighbors g"
  by (rule neighbors_cong; simp)+

lemma add_obstacle_obstacles:
  "obstacles (fst (add_obstacle g r c)) =
     (if in_bounds g (r, c) \<and> (r, c) \<noteq> frog g then insert (r, c) (obstacles g) else obstacles g)"
  by (auto simp: add_obstacle_def Let_def)

lemma add_obstacle_inv: "game_inv g \<Longrightarrow> game_inv (fst (add_obstacle g r c))"
  unfolding game_inv_def add_obstacle_obstacles add_obstacle_fields
  by (auto simp: in_bounds_cong [of "fst (add_obstacle g r c)" g] add_obstacle_fields)

lemma adjacent_path_second:
  "adjacent_path g pth \<Longrightarrow> 2 \<le> length pth \<Longrightarrow> pth ! 1 \<in> set (neighbors g (hd pth))"
  by (cases "(g, pth)" rule: adjacent_path.cases) simp_all

lemma next_cell_on_path:
  assumes "hd pth = frog g" "adjacent_path g pth" "2 \<le> length pth"
  shows "next_cell g pth = Some (pth ! 1)"
  using adjacent_path_second [OF assms(2,3)] assms(1) by (simp add: next_cell_def)

lemma add_obstacle_frog_free:
  "frog g \<notin> obstacles g \<Longrightarrow> frog (fst (add_obstacle g r c)) \<notin> obstacles (fst (add_obstacle g r c))"
  by (auto simp: add_obstacle_obstacles add_obstacle_fields)

lemma step_after_click_result:
  assumes free: "frog g \<notin> obstacles g"
  shows "\<exists>g' res. step_after_click g r c = Some (Inr (g', res))
     \<and> rows g' = rows g \<and> cols g' = cols g
     \<and> min_obstacles g' = min_obstacles g \<and> max_obstacles g' = max_obstacles g
     \<and> obstacles g' = obstacles (fst (add_obstacle g r c))
     \<and> added res = snd (add_obstacle g r c)
     \<and> moved_to res = frog g' \<and> result_status res = status g'
     \<and> (status g \<noteq> in_progress \<longrightarrow> frog g' = frog g \<and> status g' = status g \<and> path res = [])
     \<and> (status g = in_progress \<longrightarrow>
          shortest_path_to_edge (fst (add_obstacle g r c)) = Some (Inr (path res))
          \<and> (path res = [] \<longrightarrow> frog g' = frog g \<and> status g' = win)
          \<and> (length (path res) = 1 \<longrightarrow> frog g' = frog g)
          \<and> (2 \<le> length (path res) \<longrightarrow> frog g' = path res ! 1)
          \<and> (path res \<noteq> [] \<longrightarrow>
                status g' = (if is_edge g (frog g') then lose else in_progress)))"
proof -
  obtain g1 a where ao: "add_obstacle g r c = (g1, a)" by (cases "add_obstacle g r c")
  have f1: "rows g1 = rows g" "cols g1 = cols g" "frog g1 = frog g" "status g1 = status g"
    "min_obstacles g1 = min_obstacles g" "max_obstacles g1 = max_obstacles g"
    using add_obstacle_fields [of g r c] ao by simp_all
  have free1: "frog g1 \<notin> obstacles g1"
    using add_obstacle_frog_free [OF free, of r c] ao by simp
  have edge1: "is_edge g1 = is_edge g" by (rule is_edge_cong) (rule f1)+
  show ?thesis
  proof (cases "status g = in_progress")
    case False
    with ao f1 show ?thesis by (simp add: step_after_click_def)
  next
    case True
    from shortest_path_to_edge_correct [OF free1] obtain pth where
      sp: "shortest_path_to_edge g1 = Some (Inr pth)"
      and v: "pth \<noteq> [] \<Longrightarrow> hd pth = frog g1 \<and> adjacent_path g1 pth" by blast
    show ?thesis
    proof (cases "pth = []")
      case e: True
      with True ao f1 sp show ?thesis by (simp add: step_after_click_def)
    next
      case ne: False
      show ?thesis
      proof (cases "2 \<le> length pth")
        case l2: True
        from v [OF ne] have nc: "next_cell g1 pth = Some (pth ! 1)"
          by (intro next_cell_on_path) (use l2 in simp_all)
        from True ao f1 sp ne l2 nc edge1 show ?thesis
          by (simp add: step_after_click_def Let_def)
      next
        case l1: False
        with ne have "length pth = 1" by (cases pth) (auto simp: not_le)
        with True ao f1 sp ne edge1 show ?thesis
          by (simp add: step_after_click_def Let_def)
      qed
    qed
  qed
qed

lemma randrange_range: "randrange n k = Inr r \<Longrightarrow> 0 \<le> r \<and> r < n"
  by (auto simp: randrange_def split: if_splits)

lemma randint_range: "randint a b k = Inr n \<Longrightarrow> a \<le> n \<and> n \<le> b"
proof -
  assume h: "randint a b k = Inr n"
  then have ab: "a \<le> b" and n: "n = a + int k mod (b - a + 1)"
    by (auto simp: randint_def split: if_splits)
  from ab have "0 < b - a + 1" by simp
  then have "0 \<le> int k mod (b - a + 1)" "int k mod (b - a + 1) < b - a + 1"
    by (rule pos_mod_sign, rule pos_mod_bound)
  with n show ?thesis by simp
qed

lemma spawn_loop_props:
  "spawn_loop g n a rng = Inr (g', att) \<Longrightarrow>
     g' = g\<lparr>obstacles := obstacles g'\<rparr>
     \<and> obstacles g \<subseteq> obstacles g'
     \<and> obstacles g' \<subseteq> obstacles g \<union> (grid g - {frog g})
     \<and> (finite (obstacles g) \<and> int (card (obstacles g)) \<le> n \<and> int a \<le> n * 10 + 100 \<longrightarrow>
          finite (obstacles g') \<and> int (card (obstacles g')) \<le> n
          \<and> (int (card (obstacles g')) = n \<or> int att = n * 10 + 100))"
proof (induction g n a rng rule: spawn_loop.induct)
  case (1 g n a rng)
  show ?case
  proof (cases "int (card (obstacles g)) < n \<and> int a < n * 10 + 100")
    case False
    with "1.prems" have "g' = g" "att = a" by (simp_all add: spawn_loop.simps [of g n a rng])
    with False show ?thesis by auto
  next
    case True
    from True "1.prems" obtain r where r: "randrange (rows g) (rng (2 * a + 1)) = Inr r"
      by (subst (asm) spawn_loop.simps) (auto split: sum.splits)
    from True "1.prems" r obtain c where c: "randrange (cols g) (rng (2 * a + 2)) = Inr c"
      by (subst (asm) spawn_loop.simps) (auto split: sum.splits)
    from randrange_range [OF r] randrange_range [OF c] have ing: "(r, c) \<in> grid g"
      by (simp add: grid_def in_bounds_def)
    show ?thesis
    proof (cases "(r, c) = frog g")
      case f: True
      with True "1.prems" r c have rec: "spawn_loop g n (a + 1) rng = Inr (g', att)"
        by (subst (asm) spawn_loop.simps) simp
      from "1.IH"(1) [OF True r c f rec] True show ?thesis by auto
    next
      case f: False
      let ?g = "g\<lparr>obstacles := insert (r, c) (obstacles g)\<rparr>"
      from f True "1.prems" r c have rec: "spawn_loop ?g n (a + 1) rng = Inr (g', att)"
        by (subst (asm) spawn_loop.simps) simp
      note IH = "1.IH"(2) [OF True r c f rec]
      from IH have eq: "g' = g\<lparr>obstacles := obstacles g'\<rparr>"
        by (cases g, cases g') simp
      from IH have sub: "obstacles g \<subseteq> obstacles g'" by auto
      from IH ing f have sup: "obstacles g' \<subseteq> obstacles g \<union> (grid g - {frog g})"
        by (auto simp: grid_def)
      have cnt: "finite (obstacles g') \<and> int (card (obstacles g')) \<le> n
          \<and> (int (card (obstacles g')) = n \<or> int att = n * 10 + 100)"
        if fin: "finite (obstacles g)" and a: "int a \<le> n * 10 + 100"
      proof -
        have "card (insert (r, c) (obstacles g)) \<le> Suc (card (obstacles g))"
          using fin by (simp add: card_insert_if)
        with True have "int (card (obstacles ?g)) \<le> n" by simp
        moreover have "finite (obstacles ?g)" using fin by simp
        moreover have "int (a + 1) \<le> n * 10 + 100" using True by simp
        ultimately show ?thesis using IH by blast
      qed
      from eq sub sup cnt show ?thesis by blast
    qed
  qed
qed

lemma spawn_initial_obstacles_props:
  assumes "spawn_initial_obstacles g rng = Inr g'"
  shows "\<exists>n att. randint (min_obstacles g) (max_obstacles g) (rng 0) = Inr n
           \<and> spawn_loop (g\<lparr>obstacles := {}\<rparr>) n 0 rng = Inr (g', att)
           \<and> g' = g\<lparr>obstacles := obstacles g'\<rparr>
           \<and> obstacles g' \<subseteq> grid g - {frog g}"
proof -
  from assms obtain n where n: "randint (min_obstacles g) (max_obstacles g) (rng 0) = Inr n"
    by (auto simp: spawn_initial_obstacles_def split: sum.splits)
  with assms obtain att where l: "spawn_loop (g\<lparr>obstacles := {}\<rparr>) n 0 rng = Inr (g', att)"
    by (cases "spawn_loop (g\<lparr>obstacles := {}\<rparr>) n 0 rng")
       (auto simp: spawn_initial_obstacles_def)
  from spawn_loop_props [OF l] have "g' = g\<lparr>obstacles := obstacles g'\<rparr>"
    and "obstacles g' \<subseteq> grid g - {frog g}"
    by (simp_all add: grid_def)
  with n l show ?thesis by blast
qed

lemma step_after_click_inv:
  assumes inv: "game_inv g" and st: "step_after_click g r c = Some (Inr (g', res))"
  shows "game_inv g' \<and> rows g' = rows g \<and> cols g' = cols g"
proof -
  let ?g1 = "fst (add_obstacle g r c)"
  have inv1: "game_inv ?g1" by (rule add_obstacle_inv [OF inv])
  then have free1: "frog ?g1 \<notin> obstacles ?g1" by (simp add: game_inv_def)
  have free: "frog g \<notin> obstacles g" using inv by (simp add: game_inv_def)
  have ib: "in_bounds ?g1 = in_bounds g"
    by (rule in_bounds_cong) (rule add_obstacle_fields)+
  have nb: "neighbors ?g1 = neighbors g"
    by (rule neighbors_cong) (rule add_obstacle_fields)+
  from step_after_click_result [OF free, of r c] st have
    f: "rows g' = rows g" "cols g' = cols g" "obstacles g' = obstacles ?g1"
    and a: "status g \<noteq> in_progress \<Longrightarrow> frog g' = frog g"
    and b: "status g = in_progress \<Longrightarrow> shortest_path_to_edge ?g1 = Some (Inr (path res))"
      "status g = in_progress \<Longrightarrow> path res = [] \<Longrightarrow> frog g' = frog g"
      "status g = in_progress \<Longrightarrow> length (path res) = 1 \<Longrightarrow> frog g' = frog g"
      "status g = in_progress \<Longrightarrow> 2 \<le> length (path res) \<Longrightarrow> frog g' = path res ! 1"
    by simp_all
  have ib': "in_bounds g' = in_bounds g" by (rule in_bounds_cong) (rule f)+
  have obs: "\<forall>cell\<in>obstacles g'. in_bounds g' cell"
    using inv1 f(3) ib ib' by (simp add: game_inv_def)
  have frog_ok: "in_bounds g (frog g') \<and> frog g' \<notin> obstacles ?g1"
  proof (cases "status g = in_progress \<and> 2 \<le> length (path res)")
    case False
    then have "frog g' = frog g"
      using a b(2,3) by (cases "path res"; cases "tl (path res)"; cases "status g = in_progress") auto
    with inv inv1 show ?thesis
      using add_obstacle_fields(3) [of g r c] by (simp add: game_inv_def)
  next
    case True
    then have s: "status g = in_progress" and l: "2 \<le> length (path res)" by simp_all
    from l have ne: "path res \<noteq> []" by auto
    from shortest_path_to_edge_correct [OF free1] b(1) [OF s] ne
    have v: "hd (path res) = frog ?g1" "adjacent_path ?g1 (path res)"
      "set (path res) \<inter> obstacles ?g1 = {}" by simp_all
    from adjacent_path_second [OF v(2) l] have "path res ! 1 \<in> set (neighbors g (hd (path res)))"
      by (simp add: nb)
    with neighbors_in_grid [of g "hd (path res)"] have "in_bounds g (path res ! 1)"
      by (auto simp: grid_def)
    moreover have "path res ! 1 \<in> set (path res)" using l by (intro nth_mem) simp
    with v(3) have "path res ! 1 \<notin> obstacles ?g1" by blast
    ultimately show ?thesis using b(4) [OF s l] by simp
  qed
  with obs f ib' show ?thesis by (simp add: game_inv_def)
qed

lemma half_in_range: "1 \<le> (n::int) \<Longrightarrow> 0 \<le> n div 2 \<and> n div 2 < n"
  by presburger

lemma spawn_initial_obstacles_inv:
  assumes sp: "spawn_initial_obstacles g rng = Inr g'" and ib: "in_bounds g (frog g)"
  shows "game_inv g'"
proof -
  from spawn_initial_obstacles_props [OF sp]
  have eq: "g' = g\<lparr>obstacles := obstacles g'\<rparr>" and sub: "obstacles g' \<subseteq> grid g - {frog g}"
    by blast+
  from eq have f: "rows g' = rows g" "cols g' = cols g" "frog g' = frog g"
    by (cases g, cases g', simp)+
  have "in_bounds g' = in_bounds g" by (rule in_bounds_cong) (rule f)+
  with sub ib f(3) show ?thesis by (auto simp: game_inv_def grid_def)
qed

lemma spawn_initial_obstacles_fields:
  assumes sp: "spawn_initial_obstacles g rng = Inr g'"
  shows "rows g' = rows g" "cols g' = cols g" "frog g' = frog g" "status g' = status g"
    "min_obstacles g' = min_obstacles g" "max_obstacles g' = max_obstacles g"
proof -
  from spawn_initial_obstacles_props [OF sp]
  have eq: "g' = g\<lparr>obstacles := obstacles g'\<rparr>" by blast
  then show "rows g' = rows g" "cols g' = cols g" "frog g' = frog g" "status g' = status g"
    "min_obstacles g' = min_obstacles g" "max_obstacles g' = max_obstacles g"
    by (cases g, cases g', simp)+
qed

lemma GameLogic_init_inv:
  assumes "GameLogic_init rs cs mn mx rng = Inr g" "1 \<le> rs" "1 \<le> cs"
  shows "game_inv g"
  using assms unfolding GameLogic_init_def
  by (elim spawn_initial_obstacles_inv) (simp add: in_bounds_def half_in_range)

lemma reset_inv:
  assumes "reset g rng = Inr g'" "1 \<le> rows g" "1 \<le> cols g"
  shows "game_inv g'"
  using assms unfolding reset_def
  by (elim spawn_initial_obstacles_inv) (simp add: in_bounds_def half_in_range)

lemma reset_fields:
  assumes "reset g rng = Inr g'"
  shows "rows g' = rows g" "cols g' = cols g"
  using spawn_initial_obstacles_fields(1,2) [OF assms [unfolded reset_def]] by simp_all

lemma step_after_click_dims:
  assumes "step_after_click g r c = Some (Inr (g', res))"
  shows "rows g' = rows g \<and> cols g' = cols g"
proof -
  obtain g1 a where ao: "add_obstacle g r c = (g1, a)" by (cases "add_obstacle g r c")
  with add_obstacle_fields [of g r c] have f: "rows g1 = rows g" "cols g1 = cols g" by simp_all
  from assms ao have "rows g' = rows g1 \<and> cols g' = cols g1"
    by (auto simp: step_after_click_def Let_def split: if_splits option.splits sum.splits)
  with f show ?thesis by simp
qed

subsection \<open>Runs on the boards of the examples\<close>

lemma init_small_board: "GameLogic_init 2 5 1 1 counting_rng = Inr small_board"
  by code_simp

lemma init_stuck: "GameLogic_init 11 11 10 15 stuck_rng = Inr empty_board"
  by code_simp

lemma run_empty_board:
  "steps 5 empty_board 99 99 =
     Some (Inr (empty_board\<lparr>frog := (0, 3), status := lose\<rparr>,
       [\<lparr>added = False, path = [(5, 5), (4, 5), (3, 4), (2, 4), (1, 3), (0, 3)],
          moved_to = (4, 5), result_status = in_progress\<rparr>,
        \<lparr>added = False, path = [(4, 5), (3, 4), (2, 4), (1, 3), (0, 3)],
          moved_to = (3, 4), result_status = in_progress\<rparr>,
        \<lparr>added = False, path = [(3, 4), (2, 4), (1, 3), (0, 3)],
          moved_to = (2, 4), result_status = in_progress\<rparr>,
        \<lparr>added = False, path = [(2, 4), (1, 3), (0, 3)],
          moved_to = (1, 3), result_status = in_progress\<rparr>,
        \<lparr>added = False, path = [(1, 3), (0, 3)],
          moved_to = (0, 3), result_status = lose\<rparr>]))"
  by code_simp

lemma small_center_is_edge:
  assumes "1 \<le> rs" "1 \<le> cs" "rs \<le> 2 \<or> cs \<le> 2" "rows g = rs" "cols g = cs"
  shows "is_edge g (rs div 2, cs div 2)"
proof -
  have "n div 2 = 0 \<or> n div 2 = n - 1" if "1 \<le> n" "n \<le> 2" for n :: int
    using that by presburger
  with assms show ?thesis by (auto simp: is_edge_def)
qed

lemma steps_outside_not_added:
  assumes "game_inv g" and "\<not> in_bounds g (r, c)"
  shows "\<exists>g' ress. steps n g r c = Some (Inr (g', ress)) \<and> map added ress = replicate n False"
  using assms
proof (induction n arbitrary: g)
  case 0
  then show ?case by simp
next
  case (Suc n)
  from Suc.prems(1) have free: "frog g \<notin> obstacles g" by (simp add: game_inv_def)
  from Suc.prems(2) have ao: "snd (add_obstacle g r c) = False"
    by (simp add: add_obstacle_def)
  from step_after_click_result [OF free, of r c] ao obtain g1 res where
    st: "step_after_click g r c = Some (Inr (g1, res))" and ad: "added res = False"
    by auto
  from step_after_click_inv [OF Suc.prems(1) st]
  have inv1: "game_inv g1" and d: "rows g1 = rows g" "cols g1 = cols g" by simp_all
  from d have "in_bounds g1 = in_bounds g" by (rule in_bounds_cong)
  with Suc.prems(2) have "\<not> in_bounds g1 (r, c)" by simp
  from Suc.IH [OF inv1 this] obtain g' ress where
    r: "steps n g1 r c = Some (Inr (g', ress))" "map added ress = replicate n False" by blast
  with st ad show ?case by simp
qed

lemma path_empty_board:
  "shortest_path_to_edge empty_board = Some (Inr [(5, 5), (4, 5), (3, 4), (2, 4), (1, 3), (0, 3)])"
  by code_simp

lemma path_ring_board:
  "shortest_path_to_edge ring_board = Some (Inr [(2, 2), (3, 2), (4, 2)])"
  by code_simp

lemma detour_ring_board:
  "walk ring_board (frog ring_board) [(2, 2), (3, 2), (3, 3), (3, 4)]
   \<and> is_edge ring_board (last [(2, 2), (3, 2), (3, 3), (3, 4)])"
  by code_simp

lemma step_empty_board:
  "step_after_click empty_board 99 99 =
     Some (Inr (empty_board\<lparr>frog := (4, 5)\<rparr>,
       \<lparr>added = False, path = [(5, 5), (4, 5), (3, 4), (2, 4), (1, 3), (0, 3)],
          moved_to = (4, 5), result_status = in_progress\<rparr>))"
  by code_simp

section \<open>The claims\<close>

text \<open>
  Claim C1 does not hold as stated: \<open>step_after_click\<close> calls \<open>add_obstacle\<close> before it
  looks at the status, so a legal click on a decided board still places an obstacle. On a
  lost 11 by 11 board with the frog on (0, 3), the click on (5, 5) adds that cell.
\<close>

theorem terminal_freeze_counterexample:
  "status lost_board = lose
   \<and> step_after_click lost_board 5 5
       = Some (Inr (lost_board\<lparr>obstacles := {(5, 5)}\<rparr>,
                    \<lparr>added = True, path = [], moved_to = (0, 3), result_status = lose\<rparr>))
   \<and> obstacles (lost_board\<lparr>obstacles := {(5, 5)}\<rparr>) \<noteq> obstacles lost_board"
  by (simp add: lost_board_def step_after_click_def add_obstacle_def in_bounds_def)

text \<open>
  Claim C1, amended. In a state whose status is \<open>win\<close> or \<open>lose\<close>, every call of
  \<open>step_after_click(r, c)\<close> returns, leaves the frog and the status unchanged and reports
  an empty path; the obstacle set gains the cell \<open>(r, c)\<close> when that cell is in bounds and
  is not the frog's cell, and is unchanged otherwise.
\<close>

theorem terminal_freeze_amended:
  assumes "status g \<noteq> in_progress"
  shows "\<exists>g' res. step_after_click g r c = Some (Inr (g', res))
           \<and> frog g' = frog g \<and> status g' = status g
           \<and> obstacles g' = (if in_bounds g (r, c) \<and> (r, c) \<noteq> frog g
                               then insert (r, c) (obstacles g) else obstacles g)
           \<and> added res = (in_bounds g (r, c) \<and> (r, c) \<noteq> frog g \<and> (r, c) \<notin> obstacles g)
           \<and> path res = [] \<and> moved_to res = frog g \<and> result_status res = status g"
proof -
  obtain g1 a where ao: "add_obstacle g r c = (g1, a)" by (cases "add_obstacle g r c")
  with add_obstacle_fields [of g r c] add_obstacle_obstacles [of g r c]
  have "frog g1 = frog g" "status g1 = status g"
    "obstacles g1 = (if in_bounds g (r, c) \<and> (r, c) \<noteq> frog g
                               then insert (r, c) (obstacles g) else obstacles g)"
    by simp_all
  moreover have "a = (in_bounds g (r, c) \<and> (r, c) \<noteq> frog g \<and> (r, c) \<notin> obstacles g)"
    using ao by (auto simp: add_obstacle_def Let_def split: if_splits)
  ultimately show ?thesis using assms ao by (simp add: step_after_click_def)
qed

theorem terminal_freeze_amended_witness:
  "status lost_board \<noteq> in_progress
   \<and> (\<exists>g' res. step_after_click lost_board 99 99 = Some (Inr (g', res))
           \<and> frog g' = frog lost_board \<and> status g' = status lost_board
           \<and> obstacles g' = obstacles lost_board \<and> added res = False)"
proof -
  have 1: "status lost_board \<noteq> in_progress" by (simp add: lost_board_def)
  have 2: "\<not> in_bounds lost_board (99, 99)" by (simp add: lost_board_def in_bounds_def)
  from terminal_freeze_amended [OF 1, of 99 99] 2
  have "\<exists>g' res. step_after_click lost_board 99 99 = Some (Inr (g', res))
           \<and> frog g' = frog lost_board \<and> status g' = status lost_board
           \<and> obstacles g' = obstacles lost_board \<and> added res = False"
    by simp blast
  with 1 show ?thesis by simp
qed

text \<open>
  Claim C2. When the frog's cell is in bounds and is not an obstacle,
  \<open>shortest_path_to_edge\<close> returns a list, and a list that is not empty starts at the
  frog's cell, ends at an edge cell, links each cell to a neighbour of the cell before it,
  and holds no obstacle.
\<close>

theorem path_validity:
  assumes "in_bounds g (frog g)" and "frog g \<notin> obstacles g"
  shows "\<exists>pth. shortest_path_to_edge g = Some (Inr pth)
           \<and> (pth \<noteq> [] \<longrightarrow>
                 hd pth = frog g \<and> is_edge g (last pth) \<and> adjacent_path g pth
                 \<and> set pth \<inter> obstacles g = {})"
  using shortest_path_to_edge_correct [OF assms(2)] by blast

theorem path_validity_witness:
  "in_bounds empty_board (frog empty_board) \<and> frog empty_board \<notin> obstacles empty_board
   \<and> shortest_path_to_edge empty_board
        = Some (Inr [(5, 5), (4, 5), (3, 4), (2, 4), (1, 3), (0, 3)])
   \<and> [(5, 5), (4, 5), (3, 4), (2, 4), (1, 3), (0, 3)] \<noteq> []
   \<and> hd [(5, 5), (4, 5), (3, 4), (2, 4), (1, 3), (0, 3)] = frog empty_board
   \<and> is_edge empty_board (last [(5, 5), (4, 5), (3, 4), (2, 4), (1, 3), (0, 3)])
   \<and> adjacent_path empty_board [(5, 5), (4, 5), (3, 4), (2, 4), (1, 3), (0, 3)]
   \<and> set [(5, 5), (4, 5), (3, 4), (2, 4), (1, 3), (0, 3)] \<inter> obstacles empty_board = {}"
proof -
  let ?p = "[(5, 5), (4, 5), (3, 4), (2, 4), (1, 3), (0, 3)] :: Cell list"
  have 1: "in_bounds empty_board (frog empty_board)"
    by (simp add: empty_board_def in_bounds_def)
  have 2: "frog empty_board \<notin> obstacles empty_board" by (simp add: empty_board_def)
  from path_validity [OF 1 2] obtain pth where
    a: "shortest_path_to_edge empty_board = Some (Inr pth)"
    and b: "pth \<noteq> [] \<longrightarrow> hd pth = frog empty_board \<and> is_edge empty_board (last pth)
              \<and> adjacent_path empty_board pth \<and> set pth \<inter> obstacles empty_board = {}"
    by blast
  from a path_empty_board have e: "pth = ?p" by simp
  have ne: "?p \<noteq> []" by simp
  from b e ne 1 2 path_empty_board show ?thesis by blast
qed

text \<open>
  Claim C3. When the frog's cell is in bounds and is not an obstacle, the list that
  \<open>shortest_path_to_edge\<close> returns is, when not empty, a walk of the frog to an edge cell,
  and no walk of the frog to an edge cell is shorter; when some walk to an edge cell exists
  the list is not empty, so the empty list means that there is none.
\<close>

theorem path_minimality:
  assumes "in_bounds g (frog g)" and "frog g \<notin> obstacles g"
  shows "\<exists>pth. shortest_path_to_edge g = Some (Inr pth)
           \<and> (pth \<noteq> [] \<longrightarrow> walk g (frog g) pth \<and> is_edge g (last pth))
           \<and> (\<forall>xs. walk g (frog g) xs \<and> is_edge g (last xs) \<longrightarrow>
                  pth \<noteq> [] \<and> length pth \<le> length xs)"
  using shortest_path_to_edge_correct [OF assms(2)] unfolding walk_def by blast

theorem path_minimality_witness:
  "in_bounds ring_board (frog ring_board) \<and> frog ring_board \<notin> obstacles ring_board
   \<and> shortest_path_to_edge ring_board = Some (Inr [(2, 2), (3, 2), (4, 2)])
   \<and> walk ring_board (frog ring_board) [(2, 2), (3, 2), (4, 2)]
   \<and> is_edge ring_board (last [(2, 2), (3, 2), (4, 2)])
   \<and> walk ring_board (frog ring_board) [(2, 2), (3, 2), (3, 3), (3, 4)]
   \<and> is_edge ring_board (last [(2, 2), (3, 2), (3, 3), (3, 4)])
   \<and> length [(2, 2), (3, 2), (4, 2) :: Cell] \<le> length [(2, 2), (3, 2), (3, 3), (3, 4) :: Cell]"
proof -
  let ?p = "[(2, 2), (3, 2), (4, 2)] :: Cell list"
  let ?xs = "[(2, 2), (3, 2), (3, 3), (3, 4)] :: Cell list"
  have 1: "in_bounds ring_board (frog ring_board)"
    by (simp add: ring_board_def in_bounds_def)
  have 2: "frog ring_board \<notin> obstacles ring_board" by (simp add: ring_board_def)
  from path_minimality [OF 1 2] obtain pth where
    a: "shortest_path_to_edge ring_board = Some (Inr pth)"
    and b: "pth \<noteq> [] \<longrightarrow> walk ring_board (frog ring_board) pth \<and> is_edge ring_board (last pth)"
    and c: "\<forall>xs. walk ring_board (frog ring_board) xs \<and> is_edge ring_board (last xs) \<longrightarrow>
                  pth \<noteq> [] \<and> length pth \<le> length xs"
    by blast
  from a path_ring_board have e: "pth = ?p" by simp
  have ne: "?p \<noteq> []" by simp
  from c detour_ring_board have "length pth \<le> length ?xs" by blast
  with b e ne 1 2 path_ring_board detour_ring_board show ?thesis by blast
qed

text \<open>
  Claim C4. On a grid with at least one row and one column, every state reached from
  construction or \<open>reset\<close> by calls of \<open>step_after_click\<close> with any arguments has
  the frog in bounds and off the obstacle set, and every obstacle in bounds.
\<close>

theorem invariant_preservation:
  assumes "reachable g" and "1 \<le> rows g" and "1 \<le> cols g"
  shows "in_bounds g (frog g) \<and> frog g \<notin> obstacles g \<and> (\<forall>cell\<in>obstacles g. in_bounds g cell)"
proof -
  from assms(1) have "1 \<le> rows g \<and> 1 \<le> cols g \<longrightarrow> game_inv g"
  proof (induction rule: reachable.induct)
    case (r_init rs cs mn mx rng g)
    from spawn_initial_obstacles_fields(1,2) [OF r_init [unfolded GameLogic_init_def]]
    have "rows g = rs" "cols g = cs" by simp_all
    with GameLogic_init_inv [OF r_init] show ?case by simp
  next
    case (r_reset g rng g')
    from reset_fields [OF r_reset(2)] reset_inv [OF r_reset(2)] show ?case by simp
  next
    case (r_step g r c g' res)
    show ?case
    proof
      assume d: "1 \<le> rows g' \<and> 1 \<le> cols g'"
      have inv: "game_inv g"
      proof (rule ccontr)
        assume n: "\<not> game_inv g"
        with r_step.IH have "\<not> (1 \<le> rows g \<and> 1 \<le> cols g)" by blast
        moreover have "rows g' = rows g \<and> cols g' = cols g"
          using r_step(2) by (rule step_after_click_dims)
        ultimately show False using d by simp
      qed
      from step_after_click_inv [OF inv r_step(2)] show "game_inv g'" by simp
    qed
  qed
  with assms(2,3) show ?thesis by (simp add: game_inv_def)
qed

theorem invariant_preservation_witness:
  "reachable small_board \<and> 1 \<le> rows small_board \<and> 1 \<le> cols small_board
   \<and> in_bounds small_board (frog small_board) \<and> frog small_board \<notin> obstacles small_board
   \<and> (1, 4) \<in> obstacles small_board \<and> in_bounds small_board (1, 4)"
proof -
  have 1: "reachable small_board" by (rule r_init [OF init_small_board])
  have 2: "1 \<le> rows small_board" and 3: "1 \<le> cols small_board"
    by (simp_all add: small_board_def)
  have 4: "(1, 4) \<in> obstacles small_board" by (simp add: small_board_def)
  from invariant_preservation [OF 1 2 3] 1 2 3 4 show ?thesis by blast
qed

text \<open>
  Claim C5 does not hold as stated: the loop gives up after \<open>n * 10 + 100\<close> draws. When
  every draw on the default 11 by 11 board hits the frog's cell (5, 5), construction ends
  with no obstacle at all, although \<open>min_obstacles\<close> is 10 and the board has 120 other
  cells.
\<close>

theorem obstacle_count_bound_counterexample:
  "GameLogic_init 11 11 10 15 stuck_rng = Inr empty_board
   \<and> \<not> (min_obstacles empty_board \<le> int (card (obstacles empty_board))
         \<and> int (card (obstacles empty_board)) \<le> max_obstacles empty_board)
   \<and> \<not> (min_obstacles empty_board > rows empty_board * cols empty_board - 1)"
  using init_stuck by (simp add: empty_board_def)

text \<open>
  Claim C5, amended. After construction or \<open>reset\<close> with \<open>min_obstacles\<close> not negative,
  for every outcome of the sampling, the target \<open>n\<close> lies between \<open>min_obstacles\<close> and
  \<open>max_obstacles\<close> and the size of the obstacle set is at most \<open>n\<close>; it is less than
  \<open>n\<close> only when all \<open>n * 10 + 100\<close> attempts of the loop were used.
\<close>

theorem obstacle_count_bound_amended:
  assumes "GameLogic_init rs cs mn mx rng = Inr g \<or> reset g0 rng = Inr g"
    and "0 \<le> min_obstacles g"
  shows "\<exists>n att. randint (min_obstacles g) (max_obstacles g) (rng 0) = Inr n
           \<and> spawn_loop (g\<lparr>obstacles := {}\<rparr>) n 0 rng = Inr (g, att)
           \<and> min_obstacles g \<le> n \<and> n \<le> max_obstacles g
           \<and> finite (obstacles g) \<and> int (card (obstacles g)) \<le> n
           \<and> (int (card (obstacles g)) = n \<or> int att = n * 10 + 100)"
proof -
  from assms(1) obtain s where sp: "spawn_initial_obstacles s rng = Inr g"
    unfolding GameLogic_init_def reset_def by blast
  from spawn_initial_obstacles_props [OF sp] obtain n att where
    n: "randint (min_obstacles s) (max_obstacles s) (rng 0) = Inr n"
    and l: "spawn_loop (s\<lparr>obstacles := {}\<rparr>) n 0 rng = Inr (g, att)"
    and eq: "g = s\<lparr>obstacles := obstacles g\<rparr>" by blast
  from eq have e0: "g\<lparr>obstacles := {}\<rparr> = s\<lparr>obstacles := {}\<rparr>"
    and mm: "min_obstacles g = min_obstacles s" "max_obstacles g = max_obstacles s"
    by (cases g, cases s, simp)+
  from randint_range [OF n] mm have r: "min_obstacles g \<le> n" "n \<le> max_obstacles g" by simp_all
  with assms(2) have n0: "0 \<le> n" by simp
  from spawn_loop_props [OF l] n0
  have "finite (obstacles g) \<and> int (card (obstacles g)) \<le> n
          \<and> (int (card (obstacles g)) = n \<or> int att = n * 10 + 100)"
    by simp
  with n l r e0 mm show ?thesis by simp
qed

theorem obstacle_count_bound_amended_witness:
  "GameLogic_init 11 11 10 15 stuck_rng = Inr empty_board \<and> 0 \<le> min_obstacles empty_board
   \<and> (\<exists>n att. randint (min_obstacles empty_board) (max_obstacles empty_board) (stuck_rng 0) = Inr n
           \<and> spawn_loop (empty_board\<lparr>obstacles := {}\<rparr>) n 0 stuck_rng = Inr (empty_board, att)
           \<and> min_obstacles empty_board \<le> n \<and> n \<le> max_obstacles empty_board
           \<and> finite (obstacles empty_board) \<and> int (card (obstacles empty_board)) \<le> n
           \<and> (int (card (obstacles empty_board)) = n \<or> int att = n * 10 + 100))"
proof -
  have 1: "GameLogic_init 11 11 10 15 stuck_rng = Inr empty_board \<or> reset empty_board stuck_rng = Inr empty_board"
    using init_stuck by simp
  have 2: "0 \<le> min_obstacles empty_board" by (simp add: empty_board_def)
  from obstacle_count_bound_amended [OF 1 2] init_stuck 2 show ?thesis by blast
qed

text \<open>
  Claim C6. In a state that is \<open>in_progress\<close> and satisfies the invariant,
  \<open>step_after_click\<close> returns, and when its path has at least two cells then
  \<open>path[1]\<close> is among the neighbours of the frog's cell, and the frog lands on
  \<open>path[1]\<close>.
\<close>

theorem greedy_hop:
  assumes "status g = in_progress" and "game_inv g"
  shows "\<exists>g' res. step_after_click g r c = Some (Inr (g', res))
           \<and> (2 \<le> length (path res) \<longrightarrow>
                 path res ! 1 \<in> set (neighbors g (frog g))
                 \<and> frog g' = path res ! 1 \<and> moved_to res = path res ! 1)"
proof -
  let ?g1 = "fst (add_obstacle g r c)"
  from assms(2) have free: "frog g \<notin> obstacles g" by (simp add: game_inv_def)
  have free1: "frog ?g1 \<notin> obstacles ?g1" by (rule add_obstacle_frog_free [OF free])
  have nb: "neighbors ?g1 = neighbors g"
    by (rule neighbors_cong) (rule add_obstacle_fields)+
  from step_after_click_result [OF free, of r c] assms(1) obtain g' res where
    st: "step_after_click g r c = Some (Inr (g', res))"
    and mv: "moved_to res = frog g'"
    and sp: "shortest_path_to_edge ?g1 = Some (Inr (path res))"
    and hop: "2 \<le> length (path res) \<longrightarrow> frog g' = path res ! 1"
    by blast
  have "path res ! 1 \<in> set (neighbors g (frog g))" if l: "2 \<le> length (path res)"
  proof -
    from l have ne: "path res \<noteq> []" by auto
    from shortest_path_to_edge_correct [OF free1] sp ne
    have v: "hd (path res) = frog ?g1" "adjacent_path ?g1 (path res)" by simp_all
    from adjacent_path_second [OF v(2) l] v(1) show ?thesis
      by (simp add: nb add_obstacle_fields)
  qed
  with st mv hop show ?thesis by auto
qed

theorem greedy_hop_witness:
  "status empty_board = in_progress \<and> game_inv empty_board
   \<and> step_after_click empty_board 99 99 =
       Some (Inr (empty_board\<lparr>frog := (4, 5)\<rparr>,
         \<lparr>added = False, path = [(5, 5), (4, 5), (3, 4), (2, 4), (1, 3), (0, 3)],
            moved_to = (4, 5), result_status = in_progress\<rparr>))
   \<and> 2 \<le> length [(5, 5), (4, 5), (3, 4), (2, 4), (1, 3), (0, 3) :: Cell]
   \<and> (4, 5) \<in> set (neighbors empty_board (frog empty_board))"
proof -
  have 1: "status empty_board = in_progress" by (simp add: empty_board_def)
  have 2: "game_inv empty_board" by (simp add: game_inv_def empty_board_def in_bounds_def)
  from greedy_hop [OF 1 2, of 99 99] obtain g' res where
    a: "step_after_click empty_board 99 99 = Some (Inr (g', res))"
    and b: "2 \<le> length (path res) \<longrightarrow>
                 path res ! 1 \<in> set (neighbors empty_board (frog empty_board))
                 \<and> frog g' = path res ! 1 \<and> moved_to res = path res ! 1"
    by blast
  from a step_empty_board have
    "res = \<lparr>added = False, path = [(5, 5), (4, 5), (3, 4), (2, 4), (1, 3), (0, 3)],
            moved_to = (4, 5), result_status = in_progress\<rparr>" by simp
  then have e: "path res = [(5, 5), (4, 5), (3, 4), (2, 4), (1, 3), (0, 3)]" by simp
  with b have "(4, 5) \<in> set (neighbors empty_board (frog empty_board))" by simp
  with 1 2 step_empty_board show ?thesis by simp
qed

text \<open>
  Claim C7. In a state that is \<open>in_progress\<close>, when the search run after the placement
  attempt returns the empty list, \<open>step_after_click\<close> sets the status to \<open>win\<close>,
  reports an empty path and leaves the frog where it was.
\<close>

theorem win_on_empty_path:
  assumes "status g = in_progress"
    and "shortest_path_to_edge (fst (add_obstacle g r c)) = Some (Inr [])"
  shows "\<exists>g' res. step_after_click g r c = Some (Inr (g', res))
           \<and> status g' = win \<and> result_status res = win \<and> path res = []
           \<and> frog g' = frog g \<and> moved_to res = frog g"
proof -
  obtain g1 a where ao: "add_obstacle g r c = (g1, a)" by (cases "add_obstacle g r c")
  with add_obstacle_fields [of g r c] have "frog g1 = frog g" "status g1 = status g" by simp_all
  with assms ao show ?thesis by (simp add: step_after_click_def)
qed

theorem win_on_empty_path_witness:
  "status ring_board = in_progress
   \<and> shortest_path_to_edge (fst (add_obstacle ring_board 3 2)) = Some (Inr [])
   \<and> (\<exists>g' res. step_after_click ring_board 3 2 = Some (Inr (g', res))
           \<and> status g' = win \<and> result_status res = win \<and> path res = []
           \<and> frog g' = frog ring_board \<and> moved_to res = frog ring_board)"
proof -
  have 1: "status ring_board = in_progress" by (simp add: ring_board_def)
  have 2: "shortest_path_to_edge (fst (add_obstacle ring_board 3 2)) = Some (Inr [])"
    by code_simp
  from win_on_empty_path [OF 1 2] 1 2 show ?thesis by blast
qed

text \<open>
  Claim C8. \<open>add_obstacle(r, c)\<close> returns \<open>False\<close> and leaves the whole state as it
  was exactly when the cell is out of bounds, is the frog's cell or is already an obstacle;
  in every other case it returns \<open>True\<close> and the new state is the old one with the cell
  inserted into the obstacle set.
\<close>

theorem add_obstacle_contract:
  "(snd (add_obstacle g r c) = False \<and> fst (add_obstacle g r c) = g)
     = (\<not> in_bounds g (r, c) \<or> (r, c) = frog g \<or> (r, c) \<in> obstacles g)
   \<and> (\<not> (\<not> in_bounds g (r, c) \<or> (r, c) = frog g \<or> (r, c) \<in> obstacles g) \<longrightarrow>
        add_obstacle g r c = (g\<lparr>obstacles := insert (r, c) (obstacles g)\<rparr>, True))"
  by (auto simp: add_obstacle_def Let_def)

theorem add_obstacle_contract_witness:
  "\<not> (\<not> in_bounds empty_board (3, 4) \<or> (3, 4) = frog empty_board \<or> (3, 4) \<in> obstacles empty_board)
   \<and> add_obstacle empty_board 3 4 = (empty_board\<lparr>obstacles := {(3, 4)}\<rparr>, True)
   \<and> add_obstacle empty_board 5 5 = (empty_board, False)
   \<and> add_obstacle empty_board 11 0 = (empty_board, False)"
  using add_obstacle_contract [of empty_board 3 4] add_obstacle_contract [of empty_board 5 5]
    add_obstacle_contract [of empty_board 11 0]
  by (simp add: empty_board_def in_bounds_def prod_eq_iff)

text \<open>
  Claim C9. From the empty 11 by 11 board with the frog on (5, 5), repeating
  \<open>step_after_click(99, 99)\<close> puts the frog on an edge cell with status \<open>lose\<close> after
  at most \<open>rows * cols\<close> calls (five, in fact), and every call, however many are made,
  returns \<open>added = False\<close>.
\<close>

theorem lose_scenario:
  "(\<exists>n g ress. n \<le> nat (rows empty_board * cols empty_board)
      \<and> steps n empty_board 99 99 = Some (Inr (g, ress))
      \<and> is_edge g (frog g) \<and> status g = lose)
   \<and> (\<forall>n. \<exists>g ress. steps n empty_board 99 99 = Some (Inr (g, ress))
          \<and> map added ress = replicate n False)"
proof -
  let ?g = "empty_board\<lparr>frog := (0, 3), status := lose\<rparr>"
  have 1: "(5::nat) \<le> nat (rows empty_board * cols empty_board)"
    by (simp add: empty_board_def)
  have 2: "is_edge ?g (frog ?g)" and 3: "status ?g = lose"
    by (simp_all add: is_edge_def)
  from 1 2 3 run_empty_board
  have a: "\<exists>n g ress. n \<le> nat (rows empty_board * cols empty_board)
      \<and> steps n empty_board 99 99 = Some (Inr (g, ress))
      \<and> is_edge g (frog g) \<and> status g = lose"
    by blast
  have "game_inv empty_board" "\<not> in_bounds empty_board (99, 99)"
    by (simp_all add: game_inv_def empty_board_def in_bounds_def)
  then have "\<exists>g ress. steps n empty_board 99 99 = Some (Inr (g, ress))
          \<and> map added ress = replicate n False" for n
    by (rule steps_outside_not_added)
  with a show ?thesis by blast
qed

text \<open>
  Claim C10. In a state that is \<open>in_progress\<close> with the frog on an edge cell,
  \<open>step_after_click\<close> returns the path \<open>[frog]\<close>, leaves the frog where it is and sets
  the status to \<open>lose\<close>. On a grid of one or two rows, or of one or two columns, the
  centre cell where the frog starts is an edge cell, so the first step after construction
  loses the game.
\<close>

theorem edge_start_loss:
  "(status g = in_progress \<and> is_edge g (frog g) \<longrightarrow>
      (\<exists>g' res. step_after_click g r c = Some (Inr (g', res))
          \<and> path res = [frog g] \<and> frog g' = frog g \<and> moved_to res = frog g
          \<and> status g' = lose \<and> result_status res = lose))
   \<and> (1 \<le> rs \<and> 1 \<le> cs \<and> (rs \<le> 2 \<or> cs \<le> 2) \<and> GameLogic_init rs cs mn mx rng = Inr g0 \<longrightarrow>
        frog g0 = (rs div 2, cs div 2) \<and> is_edge g0 (frog g0)
        \<and> (\<exists>g' res. step_after_click g0 r c = Some (Inr (g', res))
              \<and> path res = [frog g0] \<and> frog g' = frog g0 \<and> status g' = lose))"
proof -
  have main: "\<exists>g' res. step_after_click g r c = Some (Inr (g', res))
          \<and> path res = [frog g] \<and> frog g' = frog g \<and> moved_to res = frog g
          \<and> status g' = lose \<and> result_status res = lose"
    if s: "status g = in_progress" and e: "is_edge g (frog g)" for g
  proof -
    obtain g1 a where ao: "add_obstacle g r c = (g1, a)" by (cases "add_obstacle g r c")
    with add_obstacle_fields [of g r c] have f: "frog g1 = frog g" "status g1 = status g"
      "rows g1 = rows g" "cols g1 = cols g" by simp_all
    have "is_edge g1 = is_edge g" by (rule is_edge_cong) (rule f)+
    with s e ao f show ?thesis
      by (simp add: step_after_click_def shortest_path_to_edge_def Let_def)
  qed
  have init: "frog g0 = (rs div 2, cs div 2) \<and> is_edge g0 (frog g0)
        \<and> (\<exists>g' res. step_after_click g0 r c = Some (Inr (g', res))
              \<and> path res = [frog g0] \<and> frog g' = frog g0 \<and> status g' = lose)"
    if d: "1 \<le> rs" "1 \<le> cs" "rs \<le> 2 \<or> cs \<le> 2"
      and i: "GameLogic_init rs cs mn mx rng = Inr g0"
  proof -
    from spawn_initial_obstacles_fields [OF i [unfolded GameLogic_init_def]]
    have f: "rows g0 = rs" "cols g0 = cs" "frog g0 = (rs div 2, cs div 2)"
      "status g0 = in_progress" by simp_all
    from small_center_is_edge [OF d f(1,2)] f(3) have e: "is_edge g0 (frog g0)" by simp
    from main [OF f(4) e] f(3) e show ?thesis by blast
  qed
  from main init show ?thesis by blast
qed

theorem edge_start_loss_witness:
  "status edge_board = in_progress \<and> is_edge edge_board (frog edge_board)
   \<and> (\<exists>g' res. step_after_click edge_board 4 4 = Some (Inr (g', res))
          \<and> path res = [frog edge_board] \<and> frog g' = frog edge_board \<and> status g' = lose)
   \<and> (1::int) \<le> 2 \<and> (1::int) \<le> 5 \<and> GameLogic_init 2 5 1 1 counting_rng = Inr small_board
   \<and> is_edge small_board (frog small_board)
   \<and> (\<exists>g' res. step_after_click small_board 4 4 = Some (Inr (g', res))
          \<and> path res = [frog small_board] \<and> frog g' = frog small_board \<and> status g' = lose)"
proof -
  have 1: "status edge_board = in_progress \<and> is_edge edge_board (frog edge_board)"
    by (simp add: edge_board_def is_edge_def)
  have 2: "1 \<le> (2::int) \<and> 1 \<le> (5::int) \<and> ((2::int) \<le> 2 \<or> (5::int) \<le> 2)
           \<and> GameLogic_init 2 5 1 1 counting_rng = Inr small_board"
    using init_small_board by simp
  from edge_start_loss [of edge_board 4 4 2 5 1 1 counting_rng small_board] 1 2
  show ?thesis by blast
qed

end
